theory Spec2Isabelle
  imports Complex_Main "HOL-Library.Sublist"
begin

text \<open>
  The claims-intake agent of \<open>fnol_agent.py\<close>: fields are extracted from the text of a
  loss notice by regular expressions, the mandatory fields without a value are listed,
  and a chain of rules in a fixed order chooses the route of the claim.
\<close>

section \<open>Python strings\<close>

text \<open>
  A Python \<open>str\<close> is a sequence of code points. The model covers the code points
  0 to 255 (ASCII and Latin-1), one \<^typ>\<open>char\<close> each; the character tables below are
  those of Python 3 on that range.
\<close>

definition ord :: "char \<Rightarrow> nat" where
  "ord c = of_char c"

abbreviation NL :: char where
  "NL \<equiv> CHR 0x0A"

text \<open>\<open>str.isspace\<close>, which is also the class \<open>\s\<close> and what \<open>str.strip\<close> removes.\<close>

definition is_space :: "char \<Rightarrow> bool" where
  "is_space c = (let n = ord c in
     (9 \<le> n \<and> n \<le> 13) \<or> (28 \<le> n \<and> n \<le> 32) \<or> n = 133 \<or> n = 160)"

text \<open>The class \<open>\d\<close>.\<close>

definition is_digit :: "char \<Rightarrow> bool" where
  "is_digit c = (let n = ord c in 48 \<le> n \<and> n \<le> 57)"

text \<open>The class \<open>\w\<close>: alphanumeric characters and the underscore.\<close>

definition is_word :: "char \<Rightarrow> bool" where
  "is_word c = (let n = ord c in
     (48 \<le> n \<and> n \<le> 57) \<or> (65 \<le> n \<and> n \<le> 90) \<or> n = 95 \<or> (97 \<le> n \<and> n \<le> 122)
     \<or> n = 170 \<or> n = 178 \<or> n = 179 \<or> n = 181 \<or> n = 185 \<or> n = 186
     \<or> (188 \<le> n \<and> n \<le> 190) \<or> (192 \<le> n \<and> n \<le> 214) \<or> (216 \<le> n \<and> n \<le> 246)
     \<or> (248 \<le> n \<and> n \<le> 255))"

definition lower_char :: "char \<Rightarrow> char" where
  "lower_char c = (let n = ord c in
     if (65 \<le> n \<and> n \<le> 90) \<or> (192 \<le> n \<and> n \<le> 222 \<and> n \<noteq> 215)
     then char_of (n + 32) else c)"

text \<open>The capital of a character, where it is a single character of the range.\<close>

definition upper_char :: "char \<Rightarrow> char" where
  "upper_char c = (let n = ord c in
     if (97 \<le> n \<and> n \<le> 122) \<or> (224 \<le> n \<and> n \<le> 254 \<and> n \<noteq> 247)
     then char_of (n - 32) else c)"

text \<open>\<open>str.lower\<close>.\<close>

definition lower :: "string \<Rightarrow> string" where
  "lower s = map lower_char s"

text \<open>
  \<open>str.upper\<close>. The sharp s (223) becomes \<open>SS\<close>. The capitals of the micro sign (181)
  and of y with diaeresis (255) are the code points 924 and 376, outside the range of
  the model: both characters are left in place, which no comparison with ASCII text
  can tell from their capitals.
\<close>

definition upper :: "string \<Rightarrow> string" where
  "upper s = concat (map (\<lambda>c. if ord c = 223 then ''SS'' else [upper_char c]) s)"

text \<open>\<open>str.strip\<close> with no argument.\<close>

definition strip :: "string \<Rightarrow> string" where
  "strip s = rev (dropWhile is_space (rev (dropWhile is_space s)))"

text \<open>The operator \<open>sub in s\<close> on strings.\<close>

fun py_in :: "string \<Rightarrow> string \<Rightarrow> bool" where
  "py_in sub [] = (sub = [])"
| "py_in sub (c # cs) = (prefix sub (c # cs) \<or> py_in sub cs)"

text \<open>\<open>sep.join(xs)\<close>.\<close>

fun join :: "string \<Rightarrow> string list \<Rightarrow> string" where
  "join sep [] = []"
| "join sep [x] = x"
| "join sep (x # y # ys) = x @ sep @ join sep (y # ys)"

section \<open>Regular expressions\<close>

text \<open>
  The part of Python's \<open>re\<close> that the patterns of the program use: literal characters,
  the classes \<open>\s\<close>, \<open>\w\<close>, \<open>\d\<close>, the dot, bracket sets with ranges, the greedy
  quantifiers \<open>*\<close>, \<open>+\<close>, \<open>?\<close> and the lazy \<open>*?\<close> on one character, and capture groups.
  A pattern is the list of its nodes in the order of the pattern string.
\<close>

datatype flag = IGNORECASE | DOTALL

datatype item = Chr char | Rng char char | Esc_s | Esc_w | Esc_d

datatype atom = C item | Dot | Bracket "item list"

datatype node = One atom | Star atom | Plus atom | Opt atom | LazyStar atom
  | GroupOpen | GroupClose

type_synonym regex = "node list"

definition lit :: "string \<Rightarrow> regex" where
  "lit s = map (\<lambda>c. One (C (Chr c))) s"

definition in_rng :: "char \<Rightarrow> char \<Rightarrow> char \<Rightarrow> bool" where
  "in_rng a b c = (ord a \<le> ord c \<and> ord c \<le> ord b)"

text \<open>
  Under \<open>IGNORECASE\<close> a character matches a literal when their lower-case forms agree,
  and a range when the range holds the character, its lower-case or its capital.
\<close>

fun item_match :: "flag list \<Rightarrow> item \<Rightarrow> char \<Rightarrow> bool" where
  "item_match fl (Chr l) c =
     (if IGNORECASE \<in> set fl then lower_char c = lower_char l else c = l)"
| "item_match fl (Rng a b) c =
     (in_rng a b c \<or>
      (IGNORECASE \<in> set fl \<and> (in_rng a b (lower_char c) \<or> in_rng a b (upper_char c))))"
| "item_match fl Esc_s c = is_space c"
| "item_match fl Esc_w c = is_word c"
| "item_match fl Esc_d c = is_digit c"

fun atom_match :: "flag list \<Rightarrow> atom \<Rightarrow> char \<Rightarrow> bool" where
  "atom_match fl (C it) c = item_match fl it c"
| "atom_match fl Dot c = (DOTALL \<in> set fl \<or> c \<noteq> NL)"
| "atom_match fl (Bracket its) c = list_ex (\<lambda>it. item_match fl it c) its"

text \<open>
  The matcher backtracks as \<open>re\<close> does. \<open>k\<close> is the rest of the match, \<open>i\<close> the position
  in the text and the string the text from \<open>i\<close> on. A greedy repetition takes the
  longest run first and gives characters back one at a time; a lazy one tries the rest
  of the pattern first and takes one more character when that fails.
\<close>

fun rep_greedy :: "(char \<Rightarrow> bool) \<Rightarrow> (nat \<Rightarrow> string \<Rightarrow> 'a option) \<Rightarrow> nat \<Rightarrow> string \<Rightarrow> 'a option" where
  "rep_greedy p k i [] = k i []"
| "rep_greedy p k i (c # cs) =
     (if p c then (case rep_greedy p k (Suc i) cs of Some r \<Rightarrow> Some r | None \<Rightarrow> k i (c # cs))
      else k i (c # cs))"

fun rep_lazy :: "(char \<Rightarrow> bool) \<Rightarrow> (nat \<Rightarrow> string \<Rightarrow> 'a option) \<Rightarrow> nat \<Rightarrow> string \<Rightarrow> 'a option" where
  "rep_lazy p k i [] = k i []"
| "rep_lazy p k i (c # cs) =
     (case k i (c # cs) of Some r \<Rightarrow> Some r
      | None \<Rightarrow> if p c then rep_lazy p k (Suc i) cs else None)"

text \<open>
  \<open>run\<close> matches the nodes at position \<open>i\<close>; it returns the end of the match and the
  positions of the group marks passed, in order.
\<close>

primrec run :: "regex \<Rightarrow> flag list \<Rightarrow> nat list \<Rightarrow> nat \<Rightarrow> string \<Rightarrow> (nat \<times> nat list) option" where
  "run [] fl ms i s = Some (i, ms)"
| "run (n # ns) fl ms i s =
     (case n of
        One a \<Rightarrow> (case s of [] \<Rightarrow> None
                  | c # cs \<Rightarrow> if atom_match fl a c then run ns fl ms (Suc i) cs else None)
      | Star a \<Rightarrow> rep_greedy (atom_match fl a) (run ns fl ms) i s
      | Plus a \<Rightarrow> (case s of [] \<Rightarrow> None
                  | c # cs \<Rightarrow> if atom_match fl a c
                      then rep_greedy (atom_match fl a) (run ns fl ms) (Suc i) cs else None)
      | Opt a \<Rightarrow> (case s of [] \<Rightarrow> run ns fl ms i []
                  | c # cs \<Rightarrow> if atom_match fl a c
                      then (case run ns fl ms (Suc i) cs of Some r \<Rightarrow> Some r
                            | None \<Rightarrow> run ns fl ms i (c # cs))
                      else run ns fl ms i (c # cs))
      | LazyStar a \<Rightarrow> rep_lazy (atom_match fl a) (run ns fl ms) i s
      | GroupOpen \<Rightarrow> run ns fl (ms @ [i]) i s
      | GroupClose \<Rightarrow> run ns fl (ms @ [i]) i s)"

text \<open>
  A match object: the text matched and the text of each group. Every group of the
  supported patterns takes part in every match.
\<close>

datatype re_match = Match string "string list"

fun spans :: "string \<Rightarrow> nat list \<Rightarrow> string list" where
  "spans text (b # e # ms) = take (e - b) (drop b text) # spans text ms"
| "spans text ms = []"

text \<open>
  \<open>re.search\<close>: the match at the first position of the text that has one.
  \<open>search_from\<close> returns the start of the match, its end and the group marks.
\<close>

fun search_from :: "regex \<Rightarrow> flag list \<Rightarrow> nat \<Rightarrow> string \<Rightarrow> (nat \<times> nat \<times> nat list) option" where
  "search_from p fl i [] =
     (case run p fl [] i [] of None \<Rightarrow> None | Some (e, ms) \<Rightarrow> Some (i, e, ms))"
| "search_from p fl i (c # cs) =
     (case run p fl [] i (c # cs) of
        None \<Rightarrow> search_from p fl (Suc i) cs
      | Some (e, ms) \<Rightarrow> Some (i, e, ms))"

definition re_search :: "regex \<Rightarrow> string \<Rightarrow> flag list \<Rightarrow> re_match option" where
  "re_search p text fl =
     (case search_from p fl 0 text of
        None \<Rightarrow> None
      | Some (b, e, ms) \<Rightarrow> Some (Match (take (e - b) (drop b text)) (spans text ms)))"

text \<open>The number of group marks of a pattern: two for each group.\<close>

definition marks :: "regex \<Rightarrow> nat" where
  "marks p = length (filter (\<lambda>n. n = GroupOpen \<or> n = GroupClose) p)"

datatype py_error = IndexError

text \<open>\<open>match.group(n)\<close>, which raises \<open>IndexError\<close> when the pattern has no group \<open>n\<close>.\<close>

fun group :: "re_match \<Rightarrow> nat \<Rightarrow> py_error + string" where
  "group (Match whole gs) n =
     (if n = 0 then Inr whole
      else if n \<le> length gs then Inr (gs ! (n - 1))
      else Inl IndexError)"

section \<open>The program\<close>

definition MANDATORY_FIELDS :: "string list" where
  "MANDATORY_FIELDS =
    [''Policy Number'', ''Policyholder Name'', ''Date of Loss'', ''Time of Loss'',
     ''Location'', ''Description'', ''Claim Type'', ''Estimated Damage'', ''Asset Type'',
     ''Initial Estimate'', ''Attachments'']"

text \<open>The patterns, in the order of the dictionary.\<close>

definition name_class :: atom where
  "name_class = Bracket [Rng CHR ''A'' CHR ''Z'', Rng CHR ''0'' CHR ''9'', Chr CHR '' '',
     Chr CHR '','', Chr CHR ''.'', Chr CHR 0x27, Chr CHR ''-'']"

definition date_class :: atom where
  "date_class = Bracket [Esc_d, Chr CHR ''/'', Chr CHR ''-'']"

definition FIELD_PATTERNS :: "(string \<times> regex) list" where
  "FIELD_PATTERNS =
    [(''Policy Number'',
        lit ''POLICY NUMBER'' @ [Star (C Esc_s), GroupOpen,
          Plus (Bracket [Esc_w, Chr CHR ''-'', Chr CHR ''/'']), GroupClose]),
     (''Policyholder Name'',
        lit ''NAME OF INSURED'' @ [LazyStar Dot, One (C (Chr NL)), GroupOpen,
          Plus name_class, GroupClose]),
     (''Date of Loss'',
        lit ''DATE OF LOSS AND TIME'' @ [Star (C Esc_s), GroupOpen, Plus date_class,
          GroupClose]),
     (''Time of Loss'',
        lit ''DATE OF LOSS AND TIME'' @ [Star (C Esc_s), Plus date_class, Star (C Esc_s),
          GroupOpen,
          Plus (Bracket [Chr CHR ''A'', Chr CHR ''P'', Chr CHR ''M'', Rng CHR ''0'' CHR ''9'',
            Chr CHR '':'', Chr CHR '' '']),
          GroupClose]),
     (''Location'',
        lit ''LOCATION OF LOSS'' @ [Star (C Esc_s), One (C (Chr NL)), GroupOpen, Plus Dot,
          GroupClose]),
     (''Description'',
        lit ''DESCRIPTION OF ACCIDENT'' @ [LazyStar Dot, One (C (Chr NL)), GroupOpen,
          Plus Dot, GroupClose]),
     (''Claim Type'',
        lit ''LINE OF BUSINESS'' @ [Star (C Esc_s), GroupOpen, Plus name_class, GroupClose]),
     (''Estimated Damage'',
        lit ''ESTIMATE AMOUNT'' @ [Star (Bracket [Chr CHR '':'', Chr CHR '' '']),
          Opt (C (Chr CHR ''$'')), GroupOpen,
          Plus (Bracket [Esc_d, Chr CHR '','', Chr CHR ''.'']), GroupClose]),
     (''Asset Type'', lit ''AUTOMOBILE LOSS NOTICE'')]"

text \<open>
  A field map is a dictionary from field names to an optional string: \<open>fields k = None\<close>
  when \<open>k\<close> is not a key, \<open>Some None\<close> when the key holds Python's \<open>None\<close>.
\<close>

type_synonym field_map = "string \<rightharpoonup> string option"

text \<open>\<open>fields.get(name)\<close>: \<open>None\<close> for a key that is not there.\<close>

definition dict_get :: "field_map \<Rightarrow> string \<Rightarrow> string option" where
  "dict_get fields name = (case fields name of None \<Rightarrow> None | Some v \<Rightarrow> v)"

text \<open>
  The loop of \<open>extract_fields\<close> over the patterns. \<open>match.group(1)\<close> is evaluated for
  every pattern that matches, before the test on the field name.
\<close>

fun extract_loop :: "(string \<times> regex) list \<Rightarrow> string \<Rightarrow> field_map \<Rightarrow> py_error + field_map" where
  "extract_loop [] text fields = Inr fields"
| "extract_loop ((field, pattern) # rest) text fields =
     (case re_search pattern text [IGNORECASE, DOTALL] of
        None \<Rightarrow> extract_loop rest text fields
      | Some m \<Rightarrow>
          (case group m 1 of
             Inl e \<Rightarrow> Inl e
           | Inr g \<Rightarrow>
               (let value = strip g;
                    value = (if field = ''Asset Type'' then ''Automobile'' else value)
                in extract_loop rest text (fields(field \<mapsto> Some value)))))"

definition extract_fields :: "string \<Rightarrow> py_error + field_map" where
  "extract_fields text =
     (case extract_loop FIELD_PATTERNS text (map_of (map (\<lambda>k. (k, None)) MANDATORY_FIELDS)) of
        Inl e \<Rightarrow> Inl e
      | Inr fields \<Rightarrow>
          Inr (if dict_get fields ''Asset Type'' = None
                  \<and> py_in ''AUTOMOBILE LOSS NOTICE'' (upper text)
               then fields(''Asset Type'' \<mapsto> Some ''Automobile'')
               else fields))"

subsection \<open>Amounts\<close>

text \<open>
  A Python \<open>float\<close> that \<open>float\<close> can return for a string of digits and points: a
  non-negative binary64 value, given by the rational it stands for, or infinity.
\<close>

datatype pyfloat = Finite rat | Infinity

function bit_length :: "int \<Rightarrow> nat" where
  "bit_length n = (if n \<le> 0 then 0 else Suc (bit_length (n div 2)))"
  by pat_completeness auto
termination
  by (relation "measure nat") auto

declare bit_length.simps [simp del]

text \<open>The integer nearest to \<open>n / d\<close>, a tie going to the even one.\<close>

definition round_half_even :: "int \<Rightarrow> int \<Rightarrow> int" where
  "round_half_even n d =
     (let q = n div d; r = n mod d
      in if 2 * r < d then q else if d < 2 * r then q + 1 else if even q then q else q + 1)"

text \<open>
  The binary64 value nearest to \<open>n / d\<close>, for \<open>0 \<le> n\<close> and \<open>0 < d\<close> (round to nearest,
  ties to even): \<open>e\<close> is the binary exponent of \<open>n / d\<close>, \<open>2 ^ p\<close> the spacing of the
  binary64 values around it (53 significant bits, least exponent -1022), \<open>m\<close> the
  multiple of the spacing. A value of \<open>2 ^ 1024\<close> or more is infinity.
\<close>

definition binary64 :: "int \<Rightarrow> int \<Rightarrow> pyfloat" where
  "binary64 n d =
     (if n = 0 then Finite 0
      else
        let a = int (bit_length n) - int (bit_length d);
            e = (if (if 0 \<le> a then d * 2 ^ nat a \<le> n else d \<le> n * 2 ^ nat (- a))
                 then a else a - 1);
            p = max e (- 1022) - 52;
            m = (if 0 \<le> p then round_half_even n (d * 2 ^ nat p)
                 else round_half_even (n * 2 ^ nat (- p)) d)
        in if 0 \<le> p
           then (if 2 ^ 1024 \<le> m * 2 ^ nat p then Infinity else Finite (of_int (m * 2 ^ nat p)))
           else Finite (of_int m / of_int (2 ^ nat (- p))))"

definition digits_value :: "string \<Rightarrow> int" where
  "digits_value ds = foldl (\<lambda>n c. 10 * n + (int (ord c) - 48)) 0 ds"

text \<open>
  \<open>float(s)\<close> for a string of digits and points, which is all that \<open>parse_amount\<close>
  passes to it: digits with at most one point and at least one digit. \<open>None\<close> is the
  \<open>ValueError\<close>.
\<close>

definition py_float :: "string \<Rightarrow> pyfloat option" where
  "py_float s =
     (let ip = takeWhile is_digit s; rest = dropWhile is_digit s
      in case rest of
           [] \<Rightarrow> if ip = [] then None else Some (binary64 (digits_value ip) 1)
         | c # fp \<Rightarrow>
             if c = CHR ''.'' \<and> list_all is_digit fp \<and> (ip \<noteq> [] \<or> fp \<noteq> [])
             then Some (binary64 (digits_value (ip @ fp)) (10 ^ length fp))
             else None)"

text \<open>The comparison \<open>v < k\<close> of a float with an integer.\<close>

fun float_less :: "pyfloat \<Rightarrow> int \<Rightarrow> bool" where
  "float_less (Finite q) k = (q < of_int k)"
| "float_less Infinity k = False"

text \<open>The decimal digits of an integer that is not negative.\<close>

function decimal :: "int \<Rightarrow> string" where
  "decimal n =
     (if n < 10 then [char_of (48 + n)] else decimal (n div 10) @ [char_of (48 + n mod 10)])"
  by pat_completeness auto
termination
  by (relation "measure nat") auto

declare decimal.simps [simp del]

text \<open>
  \<open>str(v)\<close> of a float, as an f-string renders it: an integral value below \<open>10 ^ 16\<close> is
  its digits followed by \<open>.0\<close>. The rendering of the other finite values (the shortest
  digits that read back as the same float) is the parameter \<open>frac_repr\<close>.
\<close>

definition float_str :: "(rat \<Rightarrow> string) \<Rightarrow> pyfloat \<Rightarrow> string" where
  "float_str frac_repr v =
     (case v of
        Infinity \<Rightarrow> ''inf''
      | Finite q \<Rightarrow>
          if q = of_int \<lfloor>q\<rfloor> \<and> 0 \<le> q \<and> q < 10 ^ 16 then decimal \<lfloor>q\<rfloor> @ ''.0''
          else frac_repr q)"

text \<open>\<open>re.sub(r"[^\d\.]", "", s)\<close> keeps the characters of the set.\<close>

definition parse_amount :: "string option \<Rightarrow> pyfloat option" where
  "parse_amount amount_str =
     (case amount_str of
        None \<Rightarrow> None
      | Some s \<Rightarrow>
          if s = [] then None
          else
            let cleaned = filter (atom_match [] (Bracket [Esc_d, Chr CHR ''.''])) s
            in if cleaned = [] then None else py_float cleaned)"

subsection \<open>Missing fields and routing\<close>

text \<open>The truth value of an optional string: \<open>None\<close> and the empty string are false.\<close>

fun truthy :: "string option \<Rightarrow> bool" where
  "truthy None = False"
| "truthy (Some s) = (s \<noteq> [])"

definition find_missing_fields :: "field_map \<Rightarrow> string list" where
  "find_missing_fields fields = filter (\<lambda>name. \<not> truthy (dict_get fields name)) MANDATORY_FIELDS"

text \<open>\<open>x or ""\<close>.\<close>

definition or_empty :: "string option \<Rightarrow> string" where
  "or_empty x = (case x of None \<Rightarrow> [] | Some s \<Rightarrow> s)"

definition suspicious_words :: "string list" where
  "suspicious_words = [''fraud'', ''inconsistent'', ''staged'']"

definition apply_routing_rules :: "(rat \<Rightarrow> string) \<Rightarrow> field_map \<Rightarrow> string list \<Rightarrow> string \<times> string" where
  "apply_routing_rules frac_repr fields missing =
     (let description = lower (or_empty (dict_get fields ''Description''));
          claim_type = lower (or_empty (dict_get fields ''Claim Type''));
          estimate_val = parse_amount (dict_get fields ''Estimated Damage'')
      in if missing \<noteq> [] then
           (''Manual review'',
            ''One or more mandatory fields are missing: '' @ join '', '' missing)
         else if list_ex (\<lambda>word. py_in word description) suspicious_words then
           (''Investigation Flag'', ''Description contains potential fraud-related keywords.'')
         else if py_in ''injury'' claim_type then
           (''Specialist Queue'',
            ''Claim type is injury, so it is routed to the specialist queue.'')
         else if (case estimate_val of None \<Rightarrow> False | Some v \<Rightarrow> float_less v 25000) then
           (''Fast-track'',
            ''Estimated damage ('' @ float_str frac_repr (the estimate_val)
              @ '') is less than 25,000.'')
         else
           (''Standard Queue'', ''All mandatory fields present, no special conditions matched.''))"

record AgentOutput =
  extractedFields :: field_map
  missingFields :: "string list"
  recommendedRoute :: string
  reasoning :: string

text \<open>
  \<open>process_pdf\<close> from the text on: \<open>text\<close> is what \<open>extract_text_from_pdf\<close> returned for
  the file.
\<close>

definition process_pdf :: "(rat \<Rightarrow> string) \<Rightarrow> string \<Rightarrow> py_error + AgentOutput" where
  "process_pdf frac_repr text =
     (case extract_fields text of
        Inl e \<Rightarrow> Inl e
      | Inr fm \<Rightarrow>
          (let missing = find_missing_fields fm;
               (route, why) = apply_routing_rules frac_repr fm missing
           in Inr \<lparr>extractedFields = fm, missingFields = missing,
                   recommendedRoute = route, reasoning = why\<rparr>))"

section \<open>Notions of the specification and the inputs of its scenarios\<close>

text \<open>
  \<open>s\<close> contains \<open>w\<close> as a substring when the two are compared case-insensitively.
\<close>

definition contains_ci :: "string \<Rightarrow> string \<Rightarrow> bool" where
  "contains_ci s w = sublist (lower w) (lower s)"

text \<open>
  A blank string is empty or of white space only. The values of a field map are trimmed
  when \<open>strip\<close> leaves each of them as it is.
\<close>

definition blank :: "string \<Rightarrow> bool" where
  "blank s = list_all is_space s"

definition trimmed_values :: "field_map \<Rightarrow> bool" where
  "trimmed_values fm =
     list_all (\<lambda>name. case dict_get fm name of None \<Rightarrow> True | Some s \<Rightarrow> strip s = s)
       MANDATORY_FIELDS"

text \<open>
  A string of digits and points that is a valid decimal number: at most one point and
  at least one digit.
\<close>

definition valid_decimal :: "string \<Rightarrow> bool" where
  "valid_decimal t =
     (length (filter (\<lambda>c. c = CHR ''.'') t) \<le> 1 \<and> list_ex is_digit t)"

text \<open>
  The number that a valid decimal string writes: its digits read as one integer, divided
  by ten for every digit after the point.
\<close>

definition decimal_value :: "string \<Rightarrow> rat" where
  "decimal_value t =
     of_int (digits_value (filter is_digit t)) / 10 ^ (length (dropWhile is_digit t) - 1)"

text \<open>
  The statements about concrete inputs fix the rendering of the non-integral floats to
  the one below; none of them renders such a value.
\<close>

definition no_repr :: "rat \<Rightarrow> string" where
  "no_repr q = []"

text \<open>
  A field map that holds a value for each of the eleven fields, with the given
  Description, Claim Type and Estimated Damage.
\<close>

definition scenario_fields :: "string \<Rightarrow> string \<Rightarrow> string \<Rightarrow> field_map" where
  "scenario_fields d c e = map_of
     [(''Policy Number'', Some ''PN-1001''), (''Policyholder Name'', Some ''JOHN DOE''),
      (''Date of Loss'', Some ''01/02/2024''), (''Time of Loss'', Some ''10:30 AM''),
      (''Location'', Some ''12 MAIN ST''), (''Description'', Some d), (''Claim Type'', Some c),
      (''Estimated Damage'', Some e), (''Asset Type'', Some ''Automobile''),
      (''Initial Estimate'', Some ''9,000''), (''Attachments'', Some ''photo.jpg'')]"

text \<open>
  The text of scenario A: the title of the form and a labelled value for every field.
  \<open>scenario_body\<close> is the same text without the title line.
\<close>

definition scenario_body :: string where
  "scenario_body =
     ''POLICY NUMBER PN-1001'' @ [NL]
     @ ''NAME OF INSURED'' @ [NL] @ ''JOHN DOE'' @ [NL]
     @ ''DATE OF LOSS AND TIME 01/02/2024 10:30 AM'' @ [NL]
     @ ''LINE OF BUSINESS Comprehensive'' @ [NL]
     @ ''ESTIMATE AMOUNT: $10,000'' @ [NL]
     @ ''INITIAL ESTIMATE: $9,000'' @ [NL]
     @ ''ATTACHMENTS: photo.jpg'' @ [NL]
     @ ''LOCATION OF LOSS'' @ [NL] @ ''12 MAIN ST'' @ [NL]
     @ ''DESCRIPTION OF ACCIDENT'' @ [NL] @ ''REAR BUMPER HIT A POST''"

definition scenario_A :: string where
  "scenario_A = ''AUTOMOBILE LOSS NOTICE'' @ [NL] @ scenario_body"

section \<open>The matcher and the extraction loop\<close>

lemma py_in_sublist: "py_in sub s = sublist sub s"
  by (induction s) (auto simp: sublist_Cons_right)

lemma run_lit_marks: "run (lit s) fl ms i t = Some (e, ms') \<Longrightarrow> ms' = ms"
  by (induction s arbitrary: i t) (auto simp: lit_def split: list.splits if_splits)

lemma search_from_lit_marks: "search_from (lit s) fl i t = Some (b, e, ms) \<Longrightarrow> ms = []"
  by (induction t arbitrary: i) (auto split: option.splits dest: run_lit_marks)

lemma group_lit:
  assumes "re_search (lit s) text fl = Some m"
  shows "group m 1 = Inl IndexError"
  using assms by (auto simp: re_search_def split: option.splits dest: search_from_lit_marks)

lemma extract_loop_last_raises:
  assumes "re_search p text [IGNORECASE, DOTALL] = Some m" and "group m 1 = Inl IndexError"
  shows "extract_loop (ps @ [(f, p)]) text fm = Inl IndexError"
  using assms
proof (induction ps arbitrary: fm)
  case Nil
  then show ?case by simp
next
  case (Cons a ps)
  obtain g q where a: "a = (g, q)" by (cases a)
  show ?case
    using Cons.IH [OF Cons.prems] unfolding a
    by (auto split: option.splits sum.splits intro: py_error.exhaust)
qed

lemma rep_greedy_Some: "rep_greedy q k i s = Some r \<Longrightarrow> \<exists>j t. k j t = Some r"
  by (induction s arbitrary: i) (auto split: if_splits option.splits)

lemma rep_lazy_Some: "rep_lazy q k i s = Some r \<Longrightarrow> \<exists>j t. k j t = Some r"
  by (induction s arbitrary: i) (auto split: if_splits option.splits)

lemma run_marks: "run p fl ms i s = Some (e, ms') \<Longrightarrow> length ms' = length ms + marks p"
proof (induction p arbitrary: ms i s)
  case Nil
  then show ?case by (simp add: marks_def)
next
  case (Cons n p)
  show ?case
  proof (cases n)
    case (One a)
    with Cons show ?thesis by (auto simp: marks_def split: list.splits if_splits)
  next
    case (Star a)
    with Cons.prems obtain j t where "run p fl ms j t = Some (e, ms')"
      by (auto dest: rep_greedy_Some)
    with Cons.IH Star show ?thesis by (auto simp: marks_def)
  next
    case (Plus a)
    with Cons.prems obtain j t where "run p fl ms j t = Some (e, ms')"
      by (auto dest: rep_greedy_Some split: list.splits if_splits)
    with Cons.IH Plus show ?thesis by (auto simp: marks_def)
  next
    case (Opt a)
    with Cons.prems obtain j t where "run p fl ms j t = Some (e, ms')"
      by (auto split: list.splits if_splits option.splits)
    with Cons.IH Opt show ?thesis by (auto simp: marks_def)
  next
    case (LazyStar a)
    with Cons.prems obtain j t where "run p fl ms j t = Some (e, ms')"
      by (auto dest: rep_lazy_Some)
    with Cons.IH LazyStar show ?thesis by (auto simp: marks_def)
  next
    case GroupOpen
    with Cons show ?thesis by (fastforce simp: marks_def)
  next
    case GroupClose
    with Cons show ?thesis by (fastforce simp: marks_def)
  qed
qed

lemma search_from_marks: "search_from p fl i t = Some (b, e, ms) \<Longrightarrow> length ms = marks p"
  by (induction t arbitrary: i) (auto split: option.splits dest: run_marks)

lemma spans_nonempty: "2 \<le> length ms \<Longrightarrow> spans text ms \<noteq> []"
  by (cases "(text, ms)" rule: spans.cases) auto

lemma group_1_ok:
  assumes "re_search p text fl = Some m" and "2 \<le> marks p"
  shows "\<exists>g. group m 1 = Inr g"
proof -
  from assms(1) obtain b e ms where s: "search_from p fl 0 text = Some (b, e, ms)"
    and m: "m = Match (take (e - b) (drop b text)) (spans text ms)"
    by (auto simp: re_search_def split: option.splits)
  from search_from_marks [OF s] assms(2) have "spans text ms \<noteq> []"
    by (simp add: spans_nonempty)
  then show ?thesis unfolding m by (cases "spans text ms") auto
qed

lemma extract_loop_append:
  "extract_loop (ps @ qs) text fm =
     (case extract_loop ps text fm of Inl e \<Rightarrow> Inl e | Inr fm' \<Rightarrow> extract_loop qs text fm')"
  by (induction ps arbitrary: fm) (auto split: option.splits sum.splits)

lemma extract_loop_other:
  "extract_loop ps text fm = Inr fm' \<Longrightarrow> k \<notin> fst ` set ps \<Longrightarrow> fm' k = fm k"
  by (induction ps arbitrary: fm) (auto split: option.splits sum.splits)

lemma extract_loop_dom:
  "extract_loop ps text fm = Inr fm' \<Longrightarrow> fst ` set ps \<subseteq> dom fm \<Longrightarrow> dom fm' = dom fm"
proof (induction ps arbitrary: fm)
  case Nil
  then show ?case by simp
next
  case (Cons a ps)
  obtain f p where a: "a = (f, p)" by (cases a)
  from Cons.prems(2) a have f: "f \<in> dom fm" and rest: "fst ` set ps \<subseteq> dom fm" by auto
  show ?case
  proof (cases "re_search p text [IGNORECASE, DOTALL]")
    case None
    with Cons.prems(1) a have "extract_loop ps text fm = Inr fm'" by simp
    from Cons.IH [OF this rest] show ?thesis .
  next
    case (Some m)
    with Cons.prems(1) a obtain v where "extract_loop ps text (fm(f \<mapsto> v)) = Inr fm'"
      by (auto split: sum.splits simp: Let_def)
    moreover from rest have "fst ` set ps \<subseteq> dom (fm(f \<mapsto> v))" by auto
    ultimately have "dom fm' = dom (fm(f \<mapsto> v))" by (rule Cons.IH)
    with f show ?thesis by (simp add: insert_absorb)
  qed
qed

lemma extract_loop_returns:
  "\<forall>(f, p) \<in> set ps. 2 \<le> marks p \<Longrightarrow> \<exists>fm'. extract_loop ps text fm = Inr fm'"
proof (induction ps arbitrary: fm)
  case Nil
  then show ?case by simp
next
  case (Cons a ps)
  obtain f p where a: "a = (f, p)" by (cases a)
  from Cons.prems a have p: "2 \<le> marks p" and rest: "\<forall>(f, p) \<in> set ps. 2 \<le> marks p" by auto
  show ?case
  proof (cases "re_search p text [IGNORECASE, DOTALL]")
    case None
    with Cons.IH [OF rest] a show ?thesis by simp
  next
    case (Some m)
    from group_1_ok [OF Some p] obtain g where "group m 1 = Inr g" ..
    with Some Cons.IH [OF rest] a show ?thesis by (simp add: Let_def)
  qed
qed

lemma FIELD_PATTERNS_last:
  "FIELD_PATTERNS = butlast FIELD_PATTERNS @ [(''Asset Type'', lit ''AUTOMOBILE LOSS NOTICE'')]"
  by (simp add: FIELD_PATTERNS_def)

lemma FIELD_PATTERNS_groups: "\<forall>(f, p) \<in> set (butlast FIELD_PATTERNS). 2 \<le> marks p"
  by (simp add: FIELD_PATTERNS_def marks_def lit_def)

lemma FIELD_PATTERNS_names: "fst ` set FIELD_PATTERNS \<subseteq> set MANDATORY_FIELDS"
  by (simp add: FIELD_PATTERNS_def MANDATORY_FIELDS_def)

lemma extract_fields_raises:
  assumes "re_search (lit ''AUTOMOBILE LOSS NOTICE'') text [IGNORECASE, DOTALL] = Some m"
  shows "extract_fields text = Inl IndexError"
proof -
  have "extract_loop (butlast FIELD_PATTERNS @ [(''Asset Type'', lit ''AUTOMOBILE LOSS NOTICE'')])
          text fm = Inl IndexError" for fm
    using assms group_lit [OF assms] by (rule extract_loop_last_raises)
  then show ?thesis
    unfolding extract_fields_def by (subst FIELD_PATTERNS_last) simp
qed

lemma extract_fields_returns:
  assumes "re_search (lit ''AUTOMOBILE LOSS NOTICE'') text [IGNORECASE, DOTALL] = None"
  shows "\<exists>fm. extract_fields text = Inr fm"
proof -
  let ?init = "map_of (map (\<lambda>k. (k, None)) MANDATORY_FIELDS)"
  from extract_loop_returns [OF FIELD_PATTERNS_groups]
  obtain fm' where "extract_loop (butlast FIELD_PATTERNS) text ?init = Inr fm'" by blast
  with assms have "extract_loop (butlast FIELD_PATTERNS @ [(''Asset Type'', lit ''AUTOMOBILE LOSS NOTICE'')])
     text ?init = Inr fm'"
    by (simp add: extract_loop_append)
  then have "extract_loop FIELD_PATTERNS text ?init = Inr fm'"
    by (subst FIELD_PATTERNS_last)
  then show ?thesis by (simp add: extract_fields_def)
qed

lemma init_dom: "dom (map_of (map (\<lambda>k. (k, None)) MANDATORY_FIELDS)) = set MANDATORY_FIELDS"
  by (simp add: dom_map_of_conv_image_fst image_image)

lemma extract_fields_keys:
  assumes "extract_fields text = Inr fm"
  shows "dom fm = set MANDATORY_FIELDS"
proof -
  let ?init = "map_of (map (\<lambda>k. (k, None)) MANDATORY_FIELDS)"
  from assms obtain fm' where l: "extract_loop FIELD_PATTERNS text ?init = Inr fm'"
    and fm: "fm = fm' \<or> fm = fm'(''Asset Type'' \<mapsto> Some ''Automobile'')"
    by (auto simp: extract_fields_def split: sum.splits if_splits)
  from extract_loop_dom [OF l] FIELD_PATTERNS_names have d: "dom fm' = set MANDATORY_FIELDS"
    by (simp add: init_dom)
  have "''Asset Type'' \<in> set MANDATORY_FIELDS" by (simp add: MANDATORY_FIELDS_def)
  with fm d show ?thesis by (elim disjE) (simp_all add: insert_absorb)
qed

lemma extract_fields_unassigned:
  assumes "extract_fields text = Inr fm"
  shows "fm ''Initial Estimate'' = Some None" and "fm ''Attachments'' = Some None"
proof -
  let ?init = "map_of (map (\<lambda>k. (k, None)) MANDATORY_FIELDS)"
  from assms obtain fm' where l: "extract_loop FIELD_PATTERNS text ?init = Inr fm'"
    and fm: "fm = fm' \<or> fm = fm'(''Asset Type'' \<mapsto> Some ''Automobile'')"
    by (auto simp: extract_fields_def split: sum.splits if_splits)
  have "''Initial Estimate'' \<notin> fst ` set FIELD_PATTERNS" "''Attachments'' \<notin> fst ` set FIELD_PATTERNS"
    by (simp_all add: FIELD_PATTERNS_def)
  from this [THEN extract_loop_other [OF l]]
  have "fm' ''Initial Estimate'' = Some None" "fm' ''Attachments'' = Some None"
    by (simp_all add: MANDATORY_FIELDS_def)
  with fm show "fm ''Initial Estimate'' = Some None" and "fm ''Attachments'' = Some None"
    by auto
qed

lemma find_missing_unassigned:
  assumes "name \<in> set MANDATORY_FIELDS" and "fm name = Some None"
  shows "name \<in> set (find_missing_fields fm)"
  using assms by (simp add: find_missing_fields_def dict_get_def)

lemma routing_manual:
  "missing \<noteq> [] \<Longrightarrow> apply_routing_rules r fm missing =
     (''Manual review'', ''One or more mandatory fields are missing: '' @ join '', '' missing)"
  by (simp add: apply_routing_rules_def Let_def)

lemma process_pdf_manual:
  assumes "process_pdf r text = Inr out"
  shows "recommendedRoute out = ''Manual review''"
    and "''Initial Estimate'' \<in> set (missingFields out)"
    and "''Attachments'' \<in> set (missingFields out)"
proof -
  from assms obtain fm where e: "extract_fields text = Inr fm"
    by (auto simp: process_pdf_def split: sum.splits)
  have m: "''Initial Estimate'' \<in> set (find_missing_fields fm)"
       "''Attachments'' \<in> set (find_missing_fields fm)"
    using extract_fields_unassigned [OF e]
    by (auto intro!: find_missing_unassigned simp: MANDATORY_FIELDS_def)
  then have ne: "find_missing_fields fm \<noteq> []" by auto
  from assms e have out: "out = \<lparr>extractedFields = fm, missingFields = find_missing_fields fm,
      recommendedRoute = fst (apply_routing_rules r fm (find_missing_fields fm)),
      reasoning = snd (apply_routing_rules r fm (find_missing_fields fm))\<rparr>"
    by (auto simp: process_pdf_def Let_def split: prod.splits)
  show "recommendedRoute out = ''Manual review''"
    unfolding out by (simp add: routing_manual [OF ne])
  show "''Initial Estimate'' \<in> set (missingFields out)" "''Attachments'' \<in> set (missingFields out)"
    unfolding out using m by simp_all
qed

section \<open>Routing\<close>

lemma sublist_join: "name \<in> set names \<Longrightarrow> sublist name (join sep names)"
proof (induction sep names rule: join.induct)
  case (3 sep x y ys)
  show ?case
  proof (cases "name = x")
    case True
    then show ?thesis by (simp add: sublist_append_rightI)
  next
    case False
    with 3 have "sublist name (join sep (y # ys))" by simp
    moreover have "sublist (join sep (y # ys)) ((x @ sep) @ join sep (y # ys))"
      by (rule sublist_append_leftI)
    ultimately have "sublist name ((x @ sep) @ join sep (y # ys))"
      by (rule sublist_order.order.trans)
    then show ?thesis by simp
  qed
qed simp_all

text \<open>
  Claim C7. For every field map and every non-empty missing list the routing engine
  returns Manual review, whatever the fields hold; the justification is the fixed
  sentence followed by the names of the missing fields joined by a comma and a space
  in the order of the list, so every missing name occurs in it.
\<close>

theorem missing_fields_manual_review:
  "missing \<noteq> [] \<Longrightarrow>
     apply_routing_rules r fm missing =
       (''Manual review'', ''One or more mandatory fields are missing: '' @ join '', '' missing)
     \<and> list_all (\<lambda>name. sublist name (snd (apply_routing_rules r fm missing))) missing"
proof -
  assume ne: "missing \<noteq> []"
  have eq: "apply_routing_rules r fm missing =
      (''Manual review'', ''One or more mandatory fields are missing: '' @ join '', '' missing)"
    using ne by (rule routing_manual)
  have "sublist name (''One or more mandatory fields are missing: '' @ join '', '' missing)"
    if "name \<in> set missing" for name
    using sublist_join [OF that] sublist_append_leftI by (rule sublist_order.order.trans)
  then show ?thesis unfolding eq by (simp add: list_all_iff)
qed

theorem missing_fields_manual_review_witness:
  "apply_routing_rules no_repr (scenario_fields ''REAR BUMPER HIT'' ''Bodily Injury'' ''$50,000'')
     [''Location'', ''Attachments''] =
     (''Manual review'', ''One or more mandatory fields are missing: Location, Attachments'')"
  using missing_fields_manual_review [of "[''Location'', ''Attachments'']" no_repr
      "scenario_fields ''REAR BUMPER HIT'' ''Bodily Injury'' ''$50,000''"]
  by simp

lemma lower_words: "lower ''fraud'' = ''fraud''" "lower ''inconsistent'' = ''inconsistent''"
  "lower ''staged'' = ''staged''" "lower ''injury'' = ''injury''"
  by (simp_all add: lower_def lower_char_def ord_def)

lemmas ci_eval = contains_ci_def lower_def lower_char_def ord_def char_of_def bit_Suc_0_iff
  sublist_code

lemma no_keyword_in_description:
  assumes "\<forall>d. dict_get fm ''Description'' = Some d \<longrightarrow>
           \<not> contains_ci d ''fraud'' \<and> \<not> contains_ci d ''inconsistent'' \<and> \<not> contains_ci d ''staged''"
  shows "\<not> list_ex (\<lambda>word. py_in word (lower (or_empty (dict_get fm ''Description''))))
      suspicious_words"
proof -
  have "\<not> py_in w (lower (or_empty (dict_get fm ''Description'')))"
    if "w \<in> set suspicious_words" for w
  proof (cases "dict_get fm ''Description''")
    case None
    with that show ?thesis
      by (auto simp: or_empty_def suspicious_words_def lower_def)
  next
    case (Some d)
    show ?thesis
    proof (cases "d = []")
      case True
      with Some that show ?thesis by (auto simp: or_empty_def suspicious_words_def lower_def)
    next
      case False
      with Some have "or_empty (dict_get fm ''Description'') = d" by (simp add: or_empty_def)
      with assms Some that show ?thesis
        by (auto simp: suspicious_words_def contains_ci_def py_in_sublist lower_words)
    qed
  qed
  then show ?thesis by (simp add: list_ex_iff)
qed

text \<open>
  Claim C8. With an empty missing list, a Description that contains \<open>fraud\<close>,
  \<open>inconsistent\<close> or \<open>staged\<close> when compared case-insensitively gives Investigation
  Flag. Nothing is assumed about the Claim Type: an injury claim is flagged as well.
\<close>

theorem suspicious_description_investigation:
  assumes "dict_get fm ''Description'' = Some d"
    and "w \<in> {''fraud'', ''inconsistent'', ''staged''}"
    and "contains_ci d w"
  shows "apply_routing_rules r fm [] =
    (''Investigation Flag'', ''Description contains potential fraud-related keywords.'')"
proof -
  from assms(3) have "d \<noteq> []" using assms(2) by (auto simp: contains_ci_def lower_def)
  with assms(1) have d: "or_empty (dict_get fm ''Description'') = d" by (simp add: or_empty_def)
  from assms(2,3) have "py_in w (lower d)"
    by (auto simp: contains_ci_def py_in_sublist lower_words)
  with assms(2) have "list_ex (\<lambda>word. py_in word (lower d)) suspicious_words"
    by (auto simp: suspicious_words_def)
  then show ?thesis by (simp add: apply_routing_rules_def Let_def d)
qed

theorem suspicious_description_investigation_witness:
  "dict_get (scenario_fields ''claim appears staged and inconsistent'' ''Bodily Injury'' ''$50,000'')
       ''Description'' = Some ''claim appears staged and inconsistent''
   \<and> contains_ci ''claim appears staged and inconsistent'' ''staged''
   \<and> apply_routing_rules no_repr
       (scenario_fields ''claim appears staged and inconsistent'' ''Bodily Injury'' ''$50,000'') [] =
      (''Investigation Flag'', ''Description contains potential fraud-related keywords.'')"
proof -
  have d: "dict_get (scenario_fields ''claim appears staged and inconsistent'' ''Bodily Injury'' ''$50,000'')
       ''Description'' = Some ''claim appears staged and inconsistent''"
    by (simp add: dict_get_def scenario_fields_def)
  have c: "contains_ci ''claim appears staged and inconsistent'' ''staged''"
    by (simp add: ci_eval)
  from suspicious_description_investigation [OF d _ c, of no_repr] d c show ?thesis by simp
qed

text \<open>
  Claim C9. With an empty missing list and a Description that holds none of the
  suspicious keywords, a Claim Type that contains \<open>injury\<close> when compared
  case-insensitively gives Specialist Queue. Nothing is assumed about the Estimated
  Damage: the amount, however large, is not looked at.
\<close>

theorem injury_claim_specialist:
  assumes "dict_get fm ''Claim Type'' = Some c" and "contains_ci c ''injury''"
    and "\<forall>d. dict_get fm ''Description'' = Some d \<longrightarrow>
           \<not> contains_ci d ''fraud'' \<and> \<not> contains_ci d ''inconsistent'' \<and> \<not> contains_ci d ''staged''"
  shows "apply_routing_rules r fm [] =
    (''Specialist Queue'', ''Claim type is injury, so it is routed to the specialist queue.'')"
proof -
  from assms(2) have "c \<noteq> []" by (auto simp: contains_ci_def lower_def)
  with assms(1) have c: "or_empty (dict_get fm ''Claim Type'') = c" by (simp add: or_empty_def)
  from assms(2) have inj: "py_in ''injury'' (lower c)"
    by (simp add: contains_ci_def py_in_sublist lower_words)
  from assms(3)
  have "\<not> list_ex (\<lambda>word. py_in word (lower (or_empty (dict_get fm ''Description''))))
      suspicious_words"
    by (rule no_keyword_in_description)
  then show ?thesis using inj by (simp add: apply_routing_rules_def Let_def c)
qed

theorem injury_claim_specialist_witness:
  "dict_get (scenario_fields ''REAR BUMPER HIT'' ''Bodily Injury'' ''$50,000'') ''Claim Type''
       = Some ''Bodily Injury''
   \<and> contains_ci ''Bodily Injury'' ''injury''
   \<and> apply_routing_rules no_repr (scenario_fields ''REAR BUMPER HIT'' ''Bodily Injury'' ''$50,000'') [] =
      (''Specialist Queue'', ''Claim type is injury, so it is routed to the specialist queue.'')"
proof -
  let ?fm = "scenario_fields ''REAR BUMPER HIT'' ''Bodily Injury'' ''$50,000''"
  have c: "dict_get ?fm ''Claim Type'' = Some ''Bodily Injury''"
    by (simp add: dict_get_def scenario_fields_def)
  have i: "contains_ci ''Bodily Injury'' ''injury''"
    by (simp add: ci_eval)
  have d: "\<forall>d. dict_get ?fm ''Description'' = Some d \<longrightarrow>
      \<not> contains_ci d ''fraud'' \<and> \<not> contains_ci d ''inconsistent'' \<and> \<not> contains_ci d ''staged''"
    by (simp add: dict_get_def scenario_fields_def ci_eval)
  from injury_claim_specialist [OF c i d, of no_repr] c i show ?thesis by simp
qed

section \<open>Missing fields\<close>

lemma strip_blank:
  assumes "blank s"
  shows "strip s = []"
proof -
  from assms have "dropWhile is_space s = []" by (simp add: blank_def list_all_iff)
  then show ?thesis by (simp only: strip_def rev.simps dropWhile.simps)
qed

lemma trimmed_blank_empty:
  assumes "strip s = s"
  shows "blank s = (s = [])"
  using assms strip_blank by (auto simp: blank_def)

lemma strip_ends: "strip s = [] \<or> (\<not> is_space (hd (strip s)) \<and> \<not> is_space (last (strip s)))"
proof (cases "strip s = []")
  case False
  let ?a = "dropWhile is_space s" and ?b = "dropWhile is_space (rev (dropWhile is_space s))"
  from False have b: "?b \<noteq> []" by (simp add: strip_def)
  then have a: "?a \<noteq> []" by (metis dropWhile.simps(1) rev.simps(1))
  from b have "\<not> is_space (hd ?b)" by (rule hd_dropWhile)
  with b have l: "\<not> is_space (last (strip s))" by (simp add: strip_def last_rev)
  from a have ha: "\<not> is_space (hd ?a)" by (rule hd_dropWhile)
  from a ha have "\<not> is_space (last (rev ?a))" by (simp add: last_rev)
  obtain x xs where bx: "?b = x # xs" using b by (cases ?b) auto
  have "\<exists>ys. rev ?a = ys @ ?b" by (metis takeWhile_dropWhile_id)
  then obtain ys where ys: "rev ?a = ys @ ?b" ..
  with b have "last (rev ?a) = last ?b" by (metis last_appendR)
  then have "hd ?a = last ?b" using a by (simp add: last_rev)
  then have "hd (strip s) = hd ?a" using b by (simp add: strip_def hd_rev)
  with ha l show ?thesis by simp
qed simp

lemma strip_fixed:
  assumes "s = [] \<or> (\<not> is_space (hd s) \<and> \<not> is_space (last s))"
  shows "strip s = s"
proof (cases "s = []")
  case True
  then show ?thesis by (simp add: strip_def)
next
  case False
  with assms have h: "\<not> is_space (hd s)" and l: "\<not> is_space (last s)" by auto
  from False h have 1: "dropWhile is_space s = s" by (cases s) auto
  from False l have "\<not> is_space (hd (rev s))" by (simp add: hd_rev)
  with False have 2: "dropWhile is_space (rev s) = rev s" by (cases "rev s") auto
  show ?thesis by (simp add: strip_def 1 2)
qed

lemma strip_strip: "strip (strip s) = strip s"
  using strip_ends [of s] by (rule strip_fixed)

lemma strip_automobile: "strip ''Automobile'' = ''Automobile''"
  by (simp add: strip_def is_space_def ord_def)

lemma extract_loop_trimmed:
  assumes "extract_loop ps text fm = Inr fm'"
    and "\<forall>k v. fm k = Some (Some v) \<longrightarrow> strip v = v"
  shows "\<forall>k v. fm' k = Some (Some v) \<longrightarrow> strip v = v"
  using assms
proof (induction ps arbitrary: fm)
  case Nil
  then show ?case by simp
next
  case (Cons a ps)
  obtain f p where a: "a = (f, p)" by (cases a)
  show ?case
  proof (cases "re_search p text [IGNORECASE, DOTALL]")
    case None
    with Cons.prems(1) a have "extract_loop ps text fm = Inr fm'" by simp
    from Cons.IH [OF this Cons.prems(2)] show ?thesis .
  next
    case (Some m)
    with Cons.prems(1) a obtain g where
      l: "extract_loop ps text (fm(f \<mapsto> Some (if f = ''Asset Type'' then ''Automobile'' else strip g)))
          = Inr fm'"
      by (auto split: sum.splits simp: Let_def)
    have "\<forall>k v. (fm(f \<mapsto> Some (if f = ''Asset Type'' then ''Automobile'' else strip g))) k
        = Some (Some v) \<longrightarrow> strip v = v"
      using Cons.prems(2) by (auto simp: strip_automobile strip_strip)
    with l show ?thesis by (rule Cons.IH)
  qed
qed

lemma extract_fields_trimmed:
  assumes "extract_fields text = Inr fm"
  shows "trimmed_values fm"
proof -
  let ?init = "map_of (map (\<lambda>k. (k, None)) MANDATORY_FIELDS)"
  from assms obtain fm' where l: "extract_loop FIELD_PATTERNS text ?init = Inr fm'"
    and fm: "fm = fm' \<or> fm = fm'(''Asset Type'' \<mapsto> Some ''Automobile'')"
    by (auto simp: extract_fields_def split: sum.splits if_splits)
  have "\<forall>k v. ?init k = Some (Some v) \<longrightarrow> strip v = v"
    by (auto simp: map_of_eq_Some_iff dest!: map_of_SomeD)
  with l have "\<forall>k v. fm' k = Some (Some v) \<longrightarrow> strip v = v" by (rule extract_loop_trimmed)
  with fm have "\<forall>k v. fm k = Some (Some v) \<longrightarrow> strip v = v"
    by (auto simp: strip_automobile split: if_splits)
  then show ?thesis
    by (auto simp: trimmed_values_def list_all_iff dict_get_def split: option.splits)
qed

text \<open>
  In terms of the map itself: a field is reported when it is no key, holds \<open>None\<close> or
  holds the empty string.
\<close>

lemma find_missing_fields_exact:
  "find_missing_fields fm =
     filter (\<lambda>name. fm name = None \<or> fm name = Some None \<or> fm name = Some (Some []))
       MANDATORY_FIELDS"
proof -
  have "(\<not> truthy (dict_get fm name)) =
      (fm name = None \<or> fm name = Some None \<or> fm name = Some (Some []))" for name
    by (cases "fm name"; cases "the (fm name)") (auto simp: dict_get_def)
  then show ?thesis by (simp add: find_missing_fields_def)
qed

text \<open>
  Claim C5. For every field map, whose values are trimmed strings or absent, the
  missing-field detector returns exactly the fields whose value is absent or blank
  (empty or of white space only), in the order of the mandatory fields: the result is a
  subsequence of the mandatory fields.
\<close>

theorem find_missing_fields_blank:
  "trimmed_values fm \<Longrightarrow>
     find_missing_fields fm =
       filter (\<lambda>name. case dict_get fm name of None \<Rightarrow> True | Some s \<Rightarrow> blank s)
         MANDATORY_FIELDS
     \<and> subseq (find_missing_fields fm) MANDATORY_FIELDS"
proof -
  assume t: "trimmed_values fm"
  have "find_missing_fields fm =
      filter (\<lambda>name. case dict_get fm name of None \<Rightarrow> True | Some s \<Rightarrow> blank s)
        MANDATORY_FIELDS"
    unfolding find_missing_fields_def
  proof (rule filter_cong [OF refl])
    fix name assume "name \<in> set MANDATORY_FIELDS"
    with t have "case dict_get fm name of None \<Rightarrow> True | Some s \<Rightarrow> strip s = s"
      by (simp add: trimmed_values_def list_all_iff)
    then show "(\<not> truthy (dict_get fm name)) =
        (case dict_get fm name of None \<Rightarrow> True | Some s \<Rightarrow> blank s)"
      by (cases "dict_get fm name") (simp_all add: trimmed_blank_empty)
  qed
  moreover have "subseq (find_missing_fields fm) MANDATORY_FIELDS"
    by (simp add: find_missing_fields_def)
  ultimately show ?thesis by simp
qed

theorem find_missing_fields_blank_witness:
  "trimmed_values ((scenario_fields [] ''Comprehensive'' ''$10,000'')(''Attachments'' \<mapsto> None))
   \<and> find_missing_fields ((scenario_fields [] ''Comprehensive'' ''$10,000'')(''Attachments'' \<mapsto> None))
       = [''Description'', ''Attachments'']"
proof -
  let ?fm = "(scenario_fields [] ''Comprehensive'' ''$10,000'')(''Attachments'' \<mapsto> None)"
  have t: "trimmed_values ?fm"
    by (simp add: trimmed_values_def scenario_fields_def MANDATORY_FIELDS_def dict_get_def
        strip_def is_space_def ord_def)
  from find_missing_fields_blank [OF t] t show ?thesis
    by (simp add: scenario_fields_def MANDATORY_FIELDS_def dict_get_def blank_def
        is_space_def ord_def)
qed

text \<open>
  A map with a value that is not trimmed is no field map of the specification, and the
  extractor stores none; on such a map a value of white space only counts as present.
\<close>

lemma untrimmed_blank_present:
  "find_missing_fields (scenario_fields '' '' ''Comprehensive'' ''$10,000'') = []"
  by (simp add: find_missing_fields_def dict_get_def scenario_fields_def MANDATORY_FIELDS_def)

section \<open>Amounts\<close>

lemma keep_class:
  "atom_match [] (Bracket [Esc_d, Chr CHR ''.'']) = (\<lambda>c. is_digit c \<or> c = CHR ''.'')"
  by (rule ext) simp

lemma not_digit_point: "\<not> is_digit CHR ''.''"
  by (simp add: is_digit_def ord_def)

lemma py_float_None_iff:
  assumes "list_all (\<lambda>c. is_digit c \<or> c = CHR ''.'') t" and "t \<noteq> []"
  shows "(py_float t = None) = (\<not> valid_decimal t)"
proof -
  let ?ip = "takeWhile is_digit t" and ?rest = "dropWhile is_digit t"
  have t: "t = ?ip @ ?rest" by simp
  have ip: "filter (\<lambda>c. c = CHR ''.'') ?ip = []"
    using not_digit_point by (auto simp: filter_empty_conv dest: set_takeWhileD)
  show ?thesis
  proof (cases ?rest)
    case Nil
    then have all: "\<forall>c\<in>set t. is_digit c" by (simp add: dropWhile_eq_Nil_conv)
    then have tw: "takeWhile is_digit t = t" by (simp add: takeWhile_eq_all_conv)
    have "py_float t \<noteq> None"
      unfolding py_float_def Let_def Nil tw using assms(2) by simp
    moreover from ip tw have "filter (\<lambda>c. c = CHR ''.'') t = []" by simp
    with all assms(2) have "valid_decimal t"
      by (cases t) (simp_all add: valid_decimal_def list_ex_iff)
    ultimately show ?thesis by simp
  next
    case (Cons c fp)
    then have "\<not> is_digit c" by (metis hd_dropWhile list.sel(1) list.distinct(1))
    moreover from Cons have "c \<in> set t" by (metis list.set_intros(1) set_dropWhileD)
    ultimately have c: "c = CHR ''.''" using assms(1) by (auto simp: list_all_iff)
    from Cons have "set fp \<subseteq> set t" by (metis set_dropWhileD list.set_intros(2) subsetI)
    with assms(1) have fp: "list_all (\<lambda>c. is_digit c \<or> c = CHR ''.'') fp" by (auto simp: list_all_iff)
    have dots: "(filter (\<lambda>c. c = CHR ''.'') fp = []) = list_all is_digit fp"
      using fp not_digit_point by (auto simp: filter_empty_conv list_all_iff)
    have ipd: "list_ex is_digit ?ip = (?ip \<noteq> [])"
    proof (cases ?ip)
      case Nil
      then show ?thesis by simp
    next
      case (Cons a l)
      then have "a \<in> set ?ip" by simp
      then have "is_digit a" by (blast dest: set_takeWhileD)
      with Cons show ?thesis by simp
    qed
    have "list_ex is_digit t = list_ex is_digit (?ip @ CHR ''.'' # fp)"
      using t Cons c by simp
    then have ex: "list_ex is_digit t = (?ip \<noteq> [] \<or> list_ex is_digit fp)"
      using ipd not_digit_point by simp
    have len: "length (filter (\<lambda>c. c = CHR ''.'') t) = Suc (length (filter (\<lambda>c. c = CHR ''.'') fp))"
      by (subst t) (simp add: ip Cons c)
    have all_ex: "list_all is_digit fp \<Longrightarrow> list_ex is_digit fp = (fp \<noteq> [])"
      by (cases fp) (auto simp: list_all_iff list_ex_iff)
    show ?thesis
      using dots all_ex
      by (auto simp: py_float_def Let_def Cons c valid_decimal_def ex len)
  qed
qed

lemma parse_amount_12500: "parse_amount (Some ''$12,500.00'') = Some (Finite 12500)"
  by (simp add: parse_amount_def py_float_def is_digit_def ord_def digits_value_def
      binary64_def bit_length.simps round_half_even_def Let_def)

lemma parse_amount_malformed: "parse_amount (Some ''12.5.00'') = None"
  by (simp add: parse_amount_def py_float_def is_digit_def ord_def)

lemma parse_amount_10000:
  "parse_amount (Some ''$10,000'') = Some (Finite 10000)"
  "parse_amount (Some ''10,000'') = Some (Finite 10000)"
  by (simp_all add: parse_amount_def py_float_def is_digit_def ord_def digits_value_def
      binary64_def bit_length.simps round_half_even_def Let_def)

lemma float_str_10000: "float_str r (Finite 10000) = ''10000.0''"
  by (simp add: float_str_def decimal.simps char_of_def bit_Suc_0_iff)

lemma parse_amount_None_iff:
  "(parse_amount (Some s) = None) =
     (filter (\<lambda>c. is_digit c \<or> c = CHR ''.'') s = []
      \<or> \<not> valid_decimal (filter (\<lambda>c. is_digit c \<or> c = CHR ''.'') s))"
proof (cases "filter (\<lambda>c. is_digit c \<or> c = CHR ''.'') s = []")
  case True
  then show ?thesis by (simp add: parse_amount_def keep_class)
next
  case False
  let ?cleaned = "filter (\<lambda>c. is_digit c \<or> c = CHR ''.'') s"
  from False have "s \<noteq> []" by auto
  moreover have "list_all (\<lambda>c. is_digit c \<or> c = CHR ''.'') ?cleaned" by (simp add: list_all_iff)
  ultimately show ?thesis
    using False py_float_None_iff [of ?cleaned]
    by (simp add: parse_amount_def keep_class)
qed

text \<open>
  The rounding of \<open>binary64\<close> is exact where it can be: a number \<open>w / 2 ^ j\<close> with
  \<open>w\<close> below \<open>2 ^ 53\<close> is a binary64 value and is returned as it is.
\<close>

lemma bit_length_bounds:
  "0 < n \<Longrightarrow> 2 ^ (bit_length n - 1) \<le> n \<and> n < 2 ^ bit_length n"
proof (induction n rule: bit_length.induct)
  case (1 n)
  show ?case
  proof (cases "n = 1")
    case True
    then show ?thesis by (simp add: bit_length.simps)
  next
    case False
    with "1.prems" have h: "0 < n div 2" by simp
    with "1.IH" "1.prems" have ih: "2 ^ (bit_length (n div 2) - 1) \<le> n div 2"
      "n div 2 < 2 ^ bit_length (n div 2)" by simp_all
    from h have pos: "0 < bit_length (n div 2)" by (subst bit_length.simps) simp
    have bl: "bit_length n = Suc (bit_length (n div 2))"
      using "1.prems" by (subst bit_length.simps) simp
    from pos obtain k where k: "bit_length (n div 2) = Suc k" by (cases "bit_length (n div 2)") auto
    from ih(1) have "2 * 2 ^ k \<le> 2 * (n div 2)" by (simp add: k)
    also have "\<dots> \<le> n" by simp
    finally have lo: "2 ^ (bit_length n - 1) \<le> n" by (simp add: bl k)
    from ih(2) have "n div 2 + 1 \<le> 2 ^ bit_length (n div 2)" by simp
    then have "2 * (n div 2) + 2 \<le> 2 * 2 ^ bit_length (n div 2)" by simp
    moreover have "n < 2 * (n div 2) + 2" by presburger
    ultimately have "n < 2 ^ bit_length n" by (simp add: bl)
    with lo show ?thesis by simp
  qed
qed

lemma round_half_even_exact: "0 < d \<Longrightarrow> round_half_even (x * d) d = x"
  by (simp add: round_half_even_def)

lemma two_powr_int:
  "(2::real) powr real_of_int k = (if 0 \<le> k then 2 ^ nat k else 1 / 2 ^ nat (- k))"
proof (cases "0 \<le> k")
  case True
  then have "real_of_int k = real (nat k)" by simp
  then have "(2::real) powr real_of_int k = 2 powr real (nat k)" by (simp only:)
  also have "\<dots> = 2 ^ nat k" by (simp add: powr_realpow)
  finally show ?thesis using True by (simp only: if_True)
next
  case False
  then have "real_of_int k = - real (nat (- k))" by simp
  then have "(2::real) powr real_of_int k = 2 powr (- real (nat (- k)))" by (simp only:)
  also have "\<dots> = 1 / 2 powr real (nat (- k))" by (rule powr_minus_divide)
  also have "\<dots> = 1 / 2 ^ nat (- k)" by (simp add: powr_realpow)
  finally show ?thesis using False by (simp only: if_False)
qed

lemma exponent_lower:
  assumes n: "0 < n" and d: "0 < d"
  shows "2 powr real_of_int
      (let a = int (bit_length n) - int (bit_length d)
       in if (if 0 \<le> a then d * 2 ^ nat a \<le> n else d \<le> n * 2 ^ nat (- a)) then a else a - 1)
    \<le> real_of_int n / real_of_int d"
proof -
  let ?a = "int (bit_length n) - int (bit_length d)"
  let ?test = "if 0 \<le> ?a then d * 2 ^ nat ?a \<le> n else d \<le> n * 2 ^ nat (- ?a)"
  show ?thesis
  proof (cases ?test)
    case True
    have "2 powr real_of_int ?a \<le> real_of_int n / real_of_int d"
    proof (cases "0 \<le> ?a")
      case nonneg: True
      with True have "d * 2 ^ nat ?a \<le> n" by simp
      then have "real_of_int (d * 2 ^ nat ?a) \<le> real_of_int n" by (simp only: of_int_le_iff)
      then have "real_of_int d * 2 ^ nat ?a \<le> real_of_int n" by simp
      with d have "(2::real) ^ nat ?a \<le> real_of_int n / real_of_int d"
        by (simp add: pos_le_divide_eq mult.commute)
      with nonneg show ?thesis by (simp only: two_powr_int if_True)
    next
      case neg: False
      with True have "d \<le> n * 2 ^ nat (- ?a)" by simp
      then have "real_of_int d \<le> real_of_int (n * 2 ^ nat (- ?a))" by (simp only: of_int_le_iff)
      then have "real_of_int d \<le> real_of_int n * 2 ^ nat (- ?a)" by simp
      with d have "1 / (2::real) ^ nat (- ?a) \<le> real_of_int n / real_of_int d"
        by (simp add: field_simps)
      with neg show ?thesis by (simp only: two_powr_int if_False)
    qed
    then show ?thesis by (simp only: Let_def if_P [OF True])
  next
    case False
    from bit_length_bounds [OF n] have ln: "2 ^ (bit_length n - 1) \<le> n" by simp
    from bit_length_bounds [OF d] have ud: "d < 2 ^ bit_length d" by simp
    from n have bn: "0 < bit_length n" by (subst bit_length.simps) simp
    have "real_of_int (?a - 1) = real (bit_length n - 1) - real (bit_length d)"
      using bn by simp
    then have "(2::real) powr real_of_int (?a - 1) =
        2 powr (real (bit_length n - 1) - real (bit_length d))"
      by (simp only:)
    also have "\<dots> = 2 powr real (bit_length n - 1) / 2 powr real (bit_length d)"
      by (rule powr_diff)
    also have "\<dots> = 2 ^ (bit_length n - 1) / 2 ^ bit_length d"
      by (simp only: powr_realpow zero_less_numeral)
    also have "\<dots> \<le> real_of_int n / 2 ^ bit_length d"
    proof -
      from ln have "real_of_int (2 ^ (bit_length n - 1)) \<le> real_of_int n"
        by (simp only: of_int_le_iff)
      then show ?thesis by (simp add: divide_right_mono)
    qed
    also have "\<dots> \<le> real_of_int n / real_of_int d"
    proof -
      from ud have "d \<le> 2 ^ bit_length d" by simp
      then have "real_of_int d \<le> real_of_int (2 ^ bit_length d)"
        by (simp only: of_int_le_iff)
      then have "real_of_int d \<le> 2 ^ bit_length d" by simp
      with n d show ?thesis by (simp add: frac_le)
    qed
    finally show ?thesis by (simp only: Let_def if_not_P [OF False])
  qed
qed

lemma binary64_exact:
  assumes n: "0 \<le> n" and d: "0 < d" and w: "w < 2 ^ 53" and j: "j \<le> 1074"
    and eq: "n * 2 ^ j = w * d"
  shows "binary64 n d = Finite (of_int n / of_int d)"
proof (cases "n = 0")
  case True
  then show ?thesis by (simp add: binary64_def)
next
  case False
  with n have npos: "0 < n" by simp
  define a where "a = int (bit_length n) - int (bit_length d)"
  define e where
    "e = (if (if 0 \<le> a then d * 2 ^ nat a \<le> n else d \<le> n * 2 ^ nat (- a)) then a else a - 1)"
  define p where "p = max e (- 1022) - 52"
  define m where "m = (if 0 \<le> p then round_half_even n (d * 2 ^ nat p)
                       else round_half_even (n * 2 ^ nat (- p)) d)"
  have b: "binary64 n d =
      (if 0 \<le> p
       then (if 2 ^ 1024 \<le> m * 2 ^ nat p then Infinity else Finite (of_int (m * 2 ^ nat p)))
       else Finite (of_int m / of_int (2 ^ nat (- p))))"
    unfolding m_def p_def e_def a_def binary64_def Let_def
    by (simp only: if_not_P [OF False])
  have q: "(of_int n :: rat) / of_int d = of_int w / 2 ^ j"
  proof -
    from eq have "(of_int (n * 2 ^ j) :: rat) = of_int (w * d)" by (simp only:)
    then have "(of_int n :: rat) * 2 ^ j = of_int w * of_int d" by simp
    with d show ?thesis by (simp add: field_simps)
  qed
  have lower: "2 powr real_of_int e \<le> real_of_int n / real_of_int d"
    unfolding e_def a_def using exponent_lower [OF npos d] by (simp only: Let_def)
  have "real_of_int n / real_of_int d = real_of_int w / 2 ^ j"
  proof -
    from eq have "real_of_int (n * 2 ^ j) = real_of_int (w * d)" by (simp only:)
    then have "real_of_int n * 2 ^ j = real_of_int w * real_of_int d" by simp
    with d show ?thesis by (simp add: field_simps)
  qed
  also have "\<dots> < 2 ^ 53 / 2 ^ j"
  proof -
    from w have "real_of_int w < real_of_int (2 ^ 53)" by (simp only: of_int_less_iff)
    then show ?thesis by (simp add: divide_strict_right_mono)
  qed
  also have "\<dots> = 2 powr (53 - real j)"
    by (simp add: powr_diff powr_realpow)
  finally have upper: "real_of_int n / real_of_int d < 2 powr (53 - real j)" .
  from lower upper have "2 powr real_of_int e < 2 powr (53 - real j)" by (rule le_less_trans)
  then have "real_of_int e < 53 - real j" by (rule powr_less_cancel) simp
  then have e: "e \<le> 52 - int j" by linarith
  have pj: "p \<le> - int j"
    using e j by (simp add: p_def max_def)
  show ?thesis
  proof (cases "0 \<le> p")
    case True
    with pj have p0: "p = 0" and j0: "j = 0" by simp_all
    from eq j0 have nw: "n = w * d" by simp
    with d have mw: "m = w" by (simp add: m_def p0 round_half_even_exact)
    from w have small: "\<not> (2::int) ^ 1024 \<le> w" by simp
    from True have "binary64 n d =
        (if 2 ^ 1024 \<le> m * 2 ^ nat p then Infinity else Finite (of_int (m * 2 ^ nat p)))"
      by (simp only: b if_True)
    also have "\<dots> = Finite (of_int w)" using small by (simp add: mw p0)
    also have "(of_int w :: rat) = of_int n / of_int d" using d by (simp add: nw)
    finally show ?thesis .
  next
    case False
    define t where "t = nat (- p) - j"
    from pj False have np: "nat (- p) = j + t" by (simp add: t_def)
    have "n * 2 ^ nat (- p) = (w * 2 ^ t) * d"
      using eq by (simp add: np power_add algebra_simps)
    with d have mm: "m = w * 2 ^ t" using False by (simp add: m_def round_half_even_exact)
    have "(of_int m :: rat) / of_int (2 ^ nat (- p)) = of_int w / 2 ^ j"
      by (simp add: mm np power_add)
    moreover from False have "binary64 n d = Finite (of_int m / of_int (2 ^ nat (- p)))"
      by (simp only: b if_False)
    ultimately show ?thesis by (simp only: q)
  qed
qed

lemma digits_value_nonneg:
  assumes "list_all is_digit ds"
  shows "0 \<le> digits_value ds"
proof -
  have "0 \<le> foldl (\<lambda>n c. 10 * n + (int (ord c) - 48)) a ds" if "0 \<le> a" for a
    using assms that
  proof (induction ds arbitrary: a)
    case Nil
    then show ?case by simp
  next
    case (Cons c ds)
    from Cons.prems(1) have "48 \<le> ord c" by (simp add: is_digit_def Let_def)
    with Cons.prems(2) have "0 \<le> 10 * a + (int (ord c) - 48)" by simp
    with Cons.IH Cons.prems(1) show ?case by simp
  qed
  then show ?thesis by (simp add: digits_value_def)
qed

lemma py_float_value:
  assumes k: "list_all (\<lambda>c. is_digit c \<or> c = CHR ''.'') t" and v: "valid_decimal t"
  shows "py_float t = Some (binary64 (digits_value (filter is_digit t))
      (10 ^ (length (dropWhile is_digit t) - 1)))"
proof -
  let ?ip = "takeWhile is_digit t" and ?rest = "dropWhile is_digit t"
  have t: "t = ?ip @ ?rest" by simp
  have fip: "filter is_digit ?ip = ?ip"
    by (simp add: filter_id_conv) (blast dest: set_takeWhileD)
  from v have ne: "t \<noteq> []" by (auto simp: valid_decimal_def)
  show ?thesis
  proof (cases ?rest)
    case Nil
    then have all: "\<forall>c\<in>set t. is_digit c" by (simp add: dropWhile_eq_Nil_conv)
    then have tw: "takeWhile is_digit t = t" by (simp add: takeWhile_eq_all_conv)
    from all have "filter is_digit t = t" by (simp add: filter_id_conv)
    then show ?thesis
      unfolding py_float_def Let_def Nil tw using ne by simp
  next
    case (Cons c fp)
    then have "\<not> is_digit c" by (metis hd_dropWhile list.sel(1) list.distinct(1))
    moreover from Cons have "c \<in> set t" by (metis list.set_intros(1) set_dropWhileD)
    ultimately have c: "c = CHR ''.''" using k by (auto simp: list_all_iff)
    from t Cons c have t': "t = ?ip @ CHR ''.'' # fp" by simp
    have ipdots: "filter (\<lambda>c. c = CHR ''.'') ?ip = []"
      using not_digit_point by (auto simp: filter_empty_conv dest: set_takeWhileD)
    have "length (filter (\<lambda>c. c = CHR ''.'') t) =
        length (filter (\<lambda>c. c = CHR ''.'') (?ip @ CHR ''.'' # fp))"
      using t' by simp
    then have "length (filter (\<lambda>c. c = CHR ''.'') t) = Suc (length (filter (\<lambda>c. c = CHR ''.'') fp))"
      by (simp add: ipdots)
    with v have nodot: "filter (\<lambda>c. c = CHR ''.'') fp = []" by (simp add: valid_decimal_def)
    from Cons have "set fp \<subseteq> set t" by (metis set_dropWhileD list.set_intros(2) subsetI)
    with k nodot have fpd: "list_all is_digit fp"
      by (auto simp: list_all_iff filter_empty_conv)
    then have ffp: "filter is_digit fp = fp" by (simp add: filter_id_conv list_all_iff)
    have "filter is_digit t = filter is_digit (?ip @ CHR ''.'' # fp)" using t' by simp
    then have f: "filter is_digit t = ?ip @ fp"
      by (simp add: fip ffp not_digit_point)
    have "list_ex is_digit t = list_ex is_digit (?ip @ CHR ''.'' # fp)" using t' by simp
    with v have "list_ex is_digit (?ip @ CHR ''.'' # fp)" by (simp add: valid_decimal_def)
    then have some: "?ip \<noteq> [] \<or> fp \<noteq> []"
      using not_digit_point by (auto simp: list_ex_iff)
    show ?thesis
      unfolding py_float_def Let_def Cons f using c fpd some by simp
  qed
qed

lemma parse_amount_valid:
  assumes "valid_decimal (filter (\<lambda>c. is_digit c \<or> c = CHR ''.'') s)"
  shows "parse_amount (Some s) =
    Some (binary64 (digits_value (filter is_digit (filter (\<lambda>c. is_digit c \<or> c = CHR ''.'') s)))
      (10 ^ (length (dropWhile is_digit (filter (\<lambda>c. is_digit c \<or> c = CHR ''.'') s)) - 1)))"
proof -
  let ?cleaned = "filter (\<lambda>c. is_digit c \<or> c = CHR ''.'') s"
  from assms have ne: "?cleaned \<noteq> []" by (auto simp: valid_decimal_def)
  then have "s \<noteq> []" by auto
  moreover have "list_all (\<lambda>c. is_digit c \<or> c = CHR ''.'') ?cleaned" by (simp add: list_all_iff)
  then have "py_float ?cleaned = Some (binary64 (digits_value (filter is_digit ?cleaned))
      (10 ^ (length (dropWhile is_digit ?cleaned) - 1)))"
    using assms by (rule py_float_value)
  ultimately show ?thesis using ne by (simp add: parse_amount_def keep_class)
qed

lemma parse_amount_exact:
  assumes v: "valid_decimal (filter (\<lambda>c. is_digit c \<or> c = CHR ''.'') s)"
    and q: "decimal_value (filter (\<lambda>c. is_digit c \<or> c = CHR ''.'') s) = of_int w / 2 ^ j"
    and w: "w < 2 ^ 53" and j: "j \<le> 1074"
  shows "parse_amount (Some s) =
    Some (Finite (decimal_value (filter (\<lambda>c. is_digit c \<or> c = CHR ''.'') s)))"
proof -
  let ?cleaned = "filter (\<lambda>c. is_digit c \<or> c = CHR ''.'') s"
  let ?n = "digits_value (filter is_digit ?cleaned)"
  let ?k = "length (dropWhile is_digit ?cleaned) - 1"
  have n: "0 \<le> ?n" by (rule digits_value_nonneg) (simp add: list_all_iff)
  have d: "(0::int) < 10 ^ ?k" by simp
  from q have "(of_int ?n :: rat) / 10 ^ ?k = of_int w / 2 ^ j" by (simp add: decimal_value_def)
  then have "(of_int ?n :: rat) * 2 ^ j = of_int w * 10 ^ ?k" by (simp add: field_simps)
  then have "(of_int (?n * 2 ^ j) :: rat) = of_int (w * 10 ^ ?k)" by simp
  then have eq: "?n * 2 ^ j = w * 10 ^ ?k" by (simp only: of_int_eq_iff)
  from binary64_exact [OF n d w j eq]
  have "binary64 ?n (10 ^ ?k) = Finite (decimal_value ?cleaned)"
    by (simp add: decimal_value_def)
  with parse_amount_valid [OF v] show ?thesis by simp
qed

text \<open>
  Claim C10. The amount parser keeps the digits and the points of its input. When
  nothing is kept, or what is kept is not a valid decimal number, it returns no value.
  Otherwise it returns the float that \<open>binary64\<close>, the rounding to the nearest float,
  gives for the number that the kept string writes: its digits read as one integer over
  ten to the number of digits after the point. The float is that number itself whenever
  the number is \<open>w / 2 ^ j\<close> with \<open>w\<close> below \<open>2 ^ 53\<close> and \<open>j\<close> at most 1074. The
  parser has no other outcome than a value or none. \<open>$12,500.00\<close> parses to 12500 and
  \<open>12.5.00\<close> to no value.
\<close>

theorem parse_amount_reads_number:
  "parse_amount None = None
   \<and> (let cleaned = filter (\<lambda>c. is_digit c \<or> c = CHR ''.'') s
      in (if cleaned = [] \<or> \<not> valid_decimal cleaned then parse_amount (Some s) = None
          else parse_amount (Some s) =
                 Some (binary64 (digits_value (filter is_digit cleaned))
                   (10 ^ (length (dropWhile is_digit cleaned) - 1))))
         \<and> (valid_decimal cleaned \<and> decimal_value cleaned = of_int w / 2 ^ j
              \<and> w < 2 ^ 53 \<and> j \<le> 1074
            \<longrightarrow> parse_amount (Some s) = Some (Finite (decimal_value cleaned))))
   \<and> parse_amount (Some ''$12,500.00'') = Some (Finite 12500)
   \<and> parse_amount (Some ''12.5.00'') = None"
proof -
  let ?cleaned = "filter (\<lambda>c. is_digit c \<or> c = CHR ''.'') s"
  have none: "parse_amount (Some s) = None" if "?cleaned = [] \<or> \<not> valid_decimal ?cleaned"
    using that parse_amount_None_iff [of s] by simp
  have some: "parse_amount (Some s) =
      Some (binary64 (digits_value (filter is_digit ?cleaned))
        (10 ^ (length (dropWhile is_digit ?cleaned) - 1)))"
    if "\<not> (?cleaned = [] \<or> \<not> valid_decimal ?cleaned)"
    using that parse_amount_valid [of s] by simp
  have exact: "parse_amount (Some s) = Some (Finite (decimal_value ?cleaned))"
    if "valid_decimal ?cleaned \<and> decimal_value ?cleaned = of_int w / 2 ^ j
        \<and> w < 2 ^ 53 \<and> j \<le> 1074"
    using that parse_amount_exact [of s w j] by simp
  show ?thesis
    using none some exact parse_amount_12500 parse_amount_malformed
    by (simp add: parse_amount_def Let_def)
qed

theorem parse_amount_reads_number_witness:
  "valid_decimal ''7.5'' \<and> decimal_value ''7.5'' = of_int 15 / 2 ^ 1
   \<and> parse_amount (Some ''EUR 7.5'') = Some (Finite (15 / 2))"
proof -
  have c: "filter (\<lambda>c. is_digit c \<or> c = CHR ''.'') ''EUR 7.5'' = ''7.5''"
    by (simp add: is_digit_def ord_def)
  have v: "valid_decimal ''7.5''"
    by (simp add: valid_decimal_def is_digit_def ord_def)
  have q: "decimal_value ''7.5'' = of_int 15 / 2 ^ 1"
    by (simp add: decimal_value_def digits_value_def is_digit_def ord_def)
  note th = parse_amount_reads_number [of "''EUR 7.5''" 15 1, unfolded Let_def c]
  from th [THEN conjunct2, THEN conjunct1, THEN conjunct2] v q
  have "parse_amount (Some ''EUR 7.5'') = Some (Finite (decimal_value ''7.5''))" by simp
  also from q have "decimal_value ''7.5'' = 15 / 2" by simp
  finally show ?thesis using v q by simp
qed

section \<open>Field extraction\<close>

lemmas search_eval = re_search_def lit_def lower_char_def ord_def char_of_def bit_Suc_0_iff

lemma extract_fields_raises':
  assumes "re_search (lit ''AUTOMOBILE LOSS NOTICE'') text [IGNORECASE, DOTALL] \<noteq> None"
  shows "extract_fields text = Inl IndexError"
  using assms extract_fields_raises by blast

lemma process_pdf_raises:
  assumes "re_search (lit ''AUTOMOBILE LOSS NOTICE'') text [IGNORECASE, DOTALL] \<noteq> None"
  shows "process_pdf r text = Inl IndexError"
  using extract_fields_raises' [OF assms] by (simp add: process_pdf_def)

lemma process_pdf_returns:
  assumes "re_search (lit ''AUTOMOBILE LOSS NOTICE'') text [IGNORECASE, DOTALL] = None"
  shows "\<not> isl (process_pdf r text)"
  using extract_fields_returns [OF assms]
  by (auto simp: process_pdf_def Let_def split: prod.splits)

text \<open>
  A literal pattern under \<open>IGNORECASE\<close> finds the text that contains it when compared
  case-insensitively. So the extractor raises exactly on the texts that contain the
  title phrase in any letter case; on the others it returns, and Asset Type is then
  decided by the test on \<open>text.upper()\<close> alone.
\<close>

lemma run_lit_ci:
  assumes "IGNORECASE \<in> set fl"
  shows "run (lit w) fl ms i s =
    (if prefix (lower w) (lower s) then Some (i + length w, ms) else None)"
  using assms
proof (induction w arbitrary: i s)
  case Nil
  then show ?case by (simp add: lit_def lower_def)
next
  case (Cons l w)
  from Cons.IH [OF Cons.prems] have ih: "run (map (\<lambda>c. One (C (Chr c))) w) fl ms j t =
      (if prefix (lower w) (lower t) then Some (j + length w, ms) else None)" for j t
    by (simp add: lit_def)
  show ?case
  proof (cases s)
    case Nil
    then show ?thesis by (simp add: lit_def lower_def)
  next
    case (Cons c cs)
    with Cons.prems ih show ?thesis by (auto simp: lit_def lower_def)
  qed
qed

lemma search_from_lit_ci:
  assumes "IGNORECASE \<in> set fl"
  shows "(search_from (lit w) fl i s \<noteq> None) = sublist (lower w) (lower s)"
proof (induction s arbitrary: i)
  case Nil
  show ?case by (simp add: run_lit_ci [OF assms] lower_def)
next
  case (Cons c cs)
  have "sublist (lower w) (lower (c # cs)) =
      (prefix (lower w) (lower (c # cs)) \<or> sublist (lower w) (lower cs))"
    by (simp add: lower_def sublist_Cons_right)
  with Cons [of "Suc i"] show ?case
    by (auto simp: run_lit_ci [OF assms] split: option.splits)
qed

lemma re_search_lit_ci:
  "(re_search (lit w) text [IGNORECASE, DOTALL] \<noteq> None) = contains_ci text w"
  using search_from_lit_ci [of "[IGNORECASE, DOTALL]" w 0 "text"]
  by (auto simp: re_search_def contains_ci_def split: option.splits)

lemma extract_fields_raises_iff:
  "(extract_fields text = Inl IndexError) = contains_ci text ''AUTOMOBILE LOSS NOTICE''"
proof (cases "re_search (lit ''AUTOMOBILE LOSS NOTICE'') text [IGNORECASE, DOTALL]")
  case None
  from extract_fields_returns [OF None] None re_search_lit_ci [of "''AUTOMOBILE LOSS NOTICE''" "text"]
  show ?thesis by auto
next
  case (Some m)
  from extract_fields_raises [OF Some] Some re_search_lit_ci [of "''AUTOMOBILE LOSS NOTICE''" "text"]
  show ?thesis by auto
qed

lemma asset_type_value:
  assumes "extract_fields text = Inr fm"
  shows "fm ''Asset Type'' =
    Some (if py_in ''AUTOMOBILE LOSS NOTICE'' (upper text) then Some ''Automobile'' else None)"
proof -
  let ?init = "map_of (map (\<lambda>k. (k, None)) MANDATORY_FIELDS)"
  from assms obtain fm' where l: "extract_loop FIELD_PATTERNS text ?init = Inr fm'"
    and fm: "fm = (if dict_get fm' ''Asset Type'' = None
                     \<and> py_in ''AUTOMOBILE LOSS NOTICE'' (upper text)
                   then fm'(''Asset Type'' \<mapsto> Some ''Automobile'') else fm')"
    by (auto simp: extract_fields_def split: sum.splits)
  have "extract_fields text \<noteq> Inl IndexError" using assms by simp
  with extract_fields_raises
  have none: "re_search (lit ''AUTOMOBILE LOSS NOTICE'') text [IGNORECASE, DOTALL] = None"
    by (cases "re_search (lit ''AUTOMOBILE LOSS NOTICE'') text [IGNORECASE, DOTALL]") auto
  from l have "extract_loop (butlast FIELD_PATTERNS @ [(''Asset Type'', lit ''AUTOMOBILE LOSS NOTICE'')])
      text ?init = Inr fm'"
    by (subst (asm) FIELD_PATTERNS_last)
  with none have b: "extract_loop (butlast FIELD_PATTERNS) text ?init = Inr fm'"
    by (auto simp: extract_loop_append split: sum.splits)
  have "''Asset Type'' \<notin> fst ` set (butlast FIELD_PATTERNS)"
    by (simp add: FIELD_PATTERNS_def)
  from extract_loop_other [OF b this] have "fm' ''Asset Type'' = Some None"
    by (simp add: MANDATORY_FIELDS_def)
  with fm show ?thesis by (simp add: dict_get_def)
qed

text \<open>
  Claim C1 fails on the code: on the title of the form the pattern of Asset Type
  matches, \<open>match.group(1)\<close> is evaluated for a pattern that has no group, and
  \<open>extract_fields\<close> raises \<open>IndexError\<close> instead of returning a field map.
\<close>

theorem extract_fields_title_raises:
  "extract_fields ''AUTOMOBILE LOSS NOTICE'' = Inl IndexError"
  by (rule extract_fields_raises') (simp add: search_eval)

text \<open>
  Claim C4 fails on the code: the title phrase is detected by the pattern of the
  table, here in mixed case, and the extractor raises \<open>IndexError\<close>; no field map
  with Asset Type \<open>Automobile\<close> is returned.
\<close>

theorem asset_type_detected_raises:
  "re_search (lit ''AUTOMOBILE LOSS NOTICE'') ''Form: Automobile Loss Notice'' [IGNORECASE, DOTALL]
     = Some (Match ''Automobile Loss Notice'' [])
   \<and> extract_fields ''Form: Automobile Loss Notice'' = Inl IndexError"
proof -
  have m: "re_search (lit ''AUTOMOBILE LOSS NOTICE'') ''Form: Automobile Loss Notice''
      [IGNORECASE, DOTALL] = Some (Match ''Automobile Loss Notice'' [])"
    by (simp add: search_eval)
  from m extract_fields_raises [OF m] show ?thesis by simp
qed

text \<open>
  Claim C6 fails on the code: for a text that holds the title there is no returned
  field map whose keys could be the mandatory fields; the extractor raises
  \<open>IndexError\<close>.
\<close>

theorem no_field_map_returned:
  "extract_fields (''ACORD AUTOMOBILE LOSS NOTICE'' @ [NL] @ ''POLICY NUMBER PN-1001'')
     = Inl IndexError"
  by (rule extract_fields_raises') (simp add: search_eval)

section \<open>The pipeline\<close>

text \<open>
  Claim C3 fails on the code: on a text that holds the title the pipeline raises
  \<open>IndexError\<close>; it produces no missing list and no routing decision.
\<close>

theorem process_pdf_title_raises:
  "process_pdf no_repr (''AUTOMOBILE LOSS NOTICE'' @ [NL] @ ''POLICY NUMBER PN-1001'') = Inl IndexError"
  by (rule process_pdf_raises) (simp add: search_eval)

lemma scenario_A_raises: "process_pdf no_repr scenario_A = Inl IndexError"
  by (rule process_pdf_raises) (simp add: search_eval scenario_A_def)

lemma scenario_body_returns: "\<not> isl (process_pdf no_repr scenario_body)"
  by (rule process_pdf_returns) (simp add: search_eval scenario_body_def)

text \<open>
  Claim C2 as stated fails: on the text of scenario A the pipeline raises
  \<open>IndexError\<close>, and on the same text without the title line it returns Manual
  review, not Fast-track.
\<close>

theorem scenario_A_not_fast_track:
  "process_pdf no_repr scenario_A = Inl IndexError
   \<and> \<not> isl (process_pdf no_repr scenario_body)
   \<and> recommendedRoute (projr (process_pdf no_repr scenario_body)) = ''Manual review''"
proof -
  from scenario_body_returns
  have "process_pdf no_repr scenario_body = Inr (projr (process_pdf no_repr scenario_body))"
    by (cases "process_pdf no_repr scenario_body") simp_all
  from process_pdf_manual(1) [OF this] scenario_A_raises scenario_body_returns
  show ?thesis by simp
qed

lemma comprehensive_no_injury: "\<not> py_in ''injury'' (lower (or_empty (Some ''Comprehensive'')))"
  by (simp add: or_empty_def lower_def lower_char_def ord_def char_of_def bit_Suc_0_iff)

text \<open>
  Claim C2, as amended. Whenever the pipeline returns a result for a text, the routing
  decision is Manual review and the missing list holds Initial Estimate and
  Attachments, which the extractor never assigns. The routing engine, given a field map
  with Claim Type \<open>Comprehensive\<close>, Estimated Damage \<open>$10,000\<close> (or \<open>10,000\<close>, as the
  extractor captures it) and a Description without suspicious keyword, and the empty
  missing list, returns Fast-track with the justification
  \<open>Estimated damage (10000.0) is less than 25,000.\<close>
\<close>

theorem scenario_A_amended:
  "(process_pdf r text = Inr out \<longrightarrow>
      recommendedRoute out = ''Manual review''
      \<and> ''Initial Estimate'' \<in> set (missingFields out)
      \<and> ''Attachments'' \<in> set (missingFields out))
   \<and> (dict_get fm ''Claim Type'' = Some ''Comprehensive''
      \<and> (dict_get fm ''Estimated Damage'' = Some ''$10,000''
           \<or> dict_get fm ''Estimated Damage'' = Some ''10,000'')
      \<and> (\<forall>d. dict_get fm ''Description'' = Some d \<longrightarrow>
            \<not> contains_ci d ''fraud'' \<and> \<not> contains_ci d ''inconsistent'' \<and> \<not> contains_ci d ''staged'')
      \<longrightarrow> apply_routing_rules r fm [] =
            (''Fast-track'', ''Estimated damage (10000.0) is less than 25,000.''))"
proof (intro conjI impI)
  assume "process_pdf r text = Inr out"
  then show "recommendedRoute out = ''Manual review''"
    and "''Initial Estimate'' \<in> set (missingFields out)"
    and "''Attachments'' \<in> set (missingFields out)"
    by (rule process_pdf_manual)+
next
  assume a: "dict_get fm ''Claim Type'' = Some ''Comprehensive''
      \<and> (dict_get fm ''Estimated Damage'' = Some ''$10,000''
           \<or> dict_get fm ''Estimated Damage'' = Some ''10,000'')
      \<and> (\<forall>d. dict_get fm ''Description'' = Some d \<longrightarrow>
            \<not> contains_ci d ''fraud'' \<and> \<not> contains_ci d ''inconsistent'' \<and> \<not> contains_ci d ''staged'')"
  then have d: "\<not> list_ex (\<lambda>word. py_in word (lower (or_empty (dict_get fm ''Description''))))
      suspicious_words"
    by (intro no_keyword_in_description) simp
  from a have e: "parse_amount (dict_get fm ''Estimated Damage'') = Some (Finite 10000)"
    by (auto simp: parse_amount_10000)
  from a have c: "\<not> py_in ''injury'' (lower (or_empty (dict_get fm ''Claim Type'')))"
    by (simp add: comprehensive_no_injury)
  show "apply_routing_rules r fm [] =
      (''Fast-track'', ''Estimated damage (10000.0) is less than 25,000.'')"
    using d c by (simp add: apply_routing_rules_def Let_def e float_str_10000)
qed

theorem scenario_A_amended_witness:
  "recommendedRoute (projr (process_pdf no_repr scenario_body)) = ''Manual review''
   \<and> ''Initial Estimate'' \<in> set (missingFields (projr (process_pdf no_repr scenario_body)))
   \<and> ''Attachments'' \<in> set (missingFields (projr (process_pdf no_repr scenario_body)))
   \<and> find_missing_fields (scenario_fields ''REAR BUMPER HIT A POST'' ''Comprehensive'' ''$10,000'') = []
   \<and> apply_routing_rules no_repr
        (scenario_fields ''REAR BUMPER HIT A POST'' ''Comprehensive'' ''$10,000'') [] =
      (''Fast-track'', ''Estimated damage (10000.0) is less than 25,000.'')"
proof -
  let ?fm = "scenario_fields ''REAR BUMPER HIT A POST'' ''Comprehensive'' ''$10,000''"
  have p: "process_pdf no_repr scenario_body = Inr (projr (process_pdf no_repr scenario_body))"
    using scenario_body_returns by (cases "process_pdf no_repr scenario_body") simp_all
  have c: "dict_get ?fm ''Claim Type'' = Some ''Comprehensive''"
    and e: "dict_get ?fm ''Estimated Damage'' = Some ''$10,000''"
    by (simp_all add: dict_get_def scenario_fields_def)
  have d: "\<forall>d. dict_get ?fm ''Description'' = Some d \<longrightarrow>
      \<not> contains_ci d ''fraud'' \<and> \<not> contains_ci d ''inconsistent'' \<and> \<not> contains_ci d ''staged''"
    by (simp add: dict_get_def scenario_fields_def ci_eval)
  have m: "find_missing_fields ?fm = []"
    by (simp add: find_missing_fields_def dict_get_def scenario_fields_def MANDATORY_FIELDS_def)
  from scenario_A_amended [of no_repr scenario_body "projr (process_pdf no_repr scenario_body)" ?fm]
    p c e d m
  show ?thesis by simp
qed

end
